theory Spec2Isabelle
  imports Main "HOL-Library.AList"
begin

section \<open>Values, documents and errors\<close>

text \<open>
  The client of \<^verbatim>\<open>mongo.py\<close> moves Python dictionaries between a parsed run record and
  a MongoDB database. A Python value is a \<open>val\<close>; a dictionary is an association list,
  which keeps the insertion order as Python's \<^verbatim>\<open>dict\<close> does. \<open>VStr\<close> is a string of bytes
  (names, hashes, paths), \<open>VText\<close> a text by its code points, \<open>VTime\<close> a datetime by its ISO
  text. \<open>VOther\<close> stands for the scalars the claims never look into (floats), \<open>VOid\<close> for an ObjectId and
  \<open>VUnencodable\<close> for any value the BSON codec of the driver rejects.
\<close>

datatype val =
    VNone
  | VBool bool
  | VInt int
  | VStr string
  | VText "nat list"
  | VTime string
  | VOid nat
  | VOther nat
  | VUnencodable
  | VList "val list"
  | VDict "(string \<times> val) list"

type_synonym doc = "(string \<times> val) list"

text \<open>
  The exceptions that can leave the client. \<^verbatim>\<open>mongo.py\<close> raises \<^verbatim>\<open>ObserverError\<close> in two
  handlers, but the module neither defines nor imports that name (its imports are
  \<^verbatim>\<open>os.path\<close>, \<^verbatim>\<open>gridfs\<close>, \<^verbatim>\<open>pymongo\<close>, \<^verbatim>\<open>pymongo.errors\<close>, \<^verbatim>\<open>datetime\<close>, \<^verbatim>\<open>tarfile\<close> and \<^verbatim>\<open>re\<close>),
  so evaluating \<^verbatim>\<open>raise ObserverError(...)\<close> raises \<^verbatim>\<open>NameError\<close> for the unbound global.
  \<open>ObserverError\<close> is kept in the type as the exception the handlers were written to
  raise; no path of the model produces it.
\<close>

datatype error =
    RuntimeError string
  | NameError string
  | ObserverError string
  | ValueError
  | TypeError
  | AttributeError
  | FileNotFoundError string
  | InvalidDocument
  | DuplicateKeyError
  | AutoReconnect
  | OperationFailure

fun encodable :: "val \<Rightarrow> bool" where
  "encodable VUnencodable = False"
| "encodable (VList vs) = list_all encodable vs"
| "encodable (VDict kvs) = list_all encodable (map snd kvs)"
| "encodable v = True"

definition encodable_doc :: "doc \<Rightarrow> bool" where
  "encodable_doc d = list_all encodable (map snd d)"


section \<open>Strings: formatting, paths and the marker substitution\<close>

text \<open>\<^verbatim>\<open>str\<close> of a Python integer: decimal digits, with a minus sign when negative.\<close>

definition digit_char :: "nat \<Rightarrow> char" where
  "digit_char n = ''0123456789'' ! (n mod 10)"

function show_nat :: "nat \<Rightarrow> string" where
  "show_nat n = (if n < 10 then [digit_char n] else show_nat (n div 10) @ [digit_char n])"
  by pat_completeness auto
termination
  by (relation "measure id") auto

definition show_int :: "int \<Rightarrow> string" where
  "show_int i = (if i < 0 then CHR ''-'' # show_nat (nat (- i)) else show_nat (nat i))"

text \<open>The text an f-string produces for \<^verbatim>\<open>_id\<close>, which is an integer or \<^verbatim>\<open>None\<close>.\<close>

definition format_id :: "int option \<Rightarrow> string" where
  "format_id i = (case i of None \<Rightarrow> ''None'' | Some n \<Rightarrow> show_int n)"

text \<open>
  ObjectIds are natural numbers in the model; the string form of one (24 hexadecimal
  digits in the driver) is its decimal numeral.
\<close>

definition oid_str :: "nat \<Rightarrow> string" where
  "oid_str n = show_nat n"

text \<open>\<^verbatim>\<open>os.path.join(base_dir, source_name)\<close> on a POSIX system, for two components.\<close>

definition path_join :: "string \<Rightarrow> string \<Rightarrow> string" where
  "path_join a b =
     (if b \<noteq> [] \<and> hd b = CHR ''/'' then b
      else if a = [] \<or> last a = CHR ''/'' then a @ b
      else a @ ''/'' @ b)"

text \<open>
  \<^verbatim>\<open>re.sub(r'Started run with ID "\d+"', f'Started run with ID "{_id}"', cout, count=1)\<close>.
  The captured output is a Python \<^verbatim>\<open>str\<close>: a \<open>utext\<close> is its list of code points. In a
  \<^verbatim>\<open>str\<close> pattern \<^verbatim>\<open>\d\<close> matches every Unicode decimal digit, so a digit is an ASCII digit or
  a code point above ASCII of the category Nd, which the parameter \<open>nd\<close> decides (the
  Unicode tables are the library's). The pattern is a literal prefix, one or more digits
  and a closing double quote, which is no digit, so a match at the head of a text is
  decided by the longest run of digits after the prefix. \<open>marker_len\<close> is the length of the
  match at the head of a text, if there is one; \<open>re_sub_once\<close> scans for the leftmost match
  and replaces it, copying the rest.
\<close>

type_synonym utext = "nat list"

definition codes :: "string \<Rightarrow> utext" where
  "codes s = map of_char s"

definition dquote :: nat where
  "dquote = 34"

definition marker_prefix :: utext where
  "marker_prefix = codes ''Started run with ID '' @ [dquote]"

definition is_digit :: "(nat \<Rightarrow> bool) \<Rightarrow> nat \<Rightarrow> bool" where
  "is_digit nd cp = ((48 \<le> cp \<and> cp \<le> 57) \<or> (128 \<le> cp \<and> nd cp))"

definition marker_len :: "(nat \<Rightarrow> bool) \<Rightarrow> utext \<Rightarrow> nat option" where
  "marker_len nd s =
     (if take (length marker_prefix) s = marker_prefix then
        (let rest = drop (length marker_prefix) s;
             ds = takeWhile (is_digit nd) rest;
             after = dropWhile (is_digit nd) rest
         in if ds \<noteq> [] \<and> after \<noteq> [] \<and> hd after = dquote
            then Some (length marker_prefix + length ds + 1) else None)
      else None)"

fun re_sub_once :: "(nat \<Rightarrow> bool) \<Rightarrow> utext \<Rightarrow> utext \<Rightarrow> utext" where
  "re_sub_once nd rep [] = []"
| "re_sub_once nd rep (cp # s) =
     (case marker_len nd (cp # s) of
        Some n \<Rightarrow> rep @ drop n (cp # s)
      | None \<Rightarrow> cp # re_sub_once nd rep s)"

definition marker :: "int option \<Rightarrow> utext" where
  "marker i = marker_prefix @ codes (format_id i) @ [dquote]"

definition rewrite_cout :: "(nat \<Rightarrow> bool) \<Rightarrow> int option \<Rightarrow> utext \<Rightarrow> utext" where
  "rewrite_cout nd i cout = re_sub_once nd (marker i) cout"


section \<open>The database\<close>

text \<open>
  The client holds three handles on one database: the runs collection, the metrics
  collection and the GridFS blob store. The database is shared with other writers and
  outlives the client, so it is a state of its own that every operation takes and
  returns. A stored run is its integer \<^verbatim>\<open>_id\<close> and its other fields; a metric document is
  keyed by run id and metric name and holds three arrays; a blob has the name and the
  hash the blob store recorded for it.
\<close>

record metric_doc =
  m_oid :: nat
  m_run_id :: "int option"
  m_name :: string
  m_steps :: "val list"
  m_values :: "val list"
  m_timestamps :: "val list"

record fs_file =
  file_id :: nat
  filename :: string
  md5 :: "string option"
  content :: string

text \<open>
  What the rest of the world does to the runs collection is a schedule, read one step per
  write the client sends: the runs other allocators insert just before the write takes
  effect, and the fault the write meets, if any. An empty schedule is a quiet
  environment. \<open>ConnectionLost\<close> is the driver's \<^verbatim>\<open>AutoReconnect\<close>; \<open>ServerError\<close> is any
  other failure of the driver.
\<close>

datatype fault = ConnectionLost | ServerError

record env_step =
  arrivals :: "(int \<times> doc) list"
  fault :: "fault option"

record store =
  runs :: "(int \<times> doc) list"
  metrics :: "metric_doc list"
  fs :: "fs_file list"
  next_oid :: nat
  sched :: "env_step list"

definition fault_error :: "fault \<Rightarrow> error" where
  "fault_error f = (case f of ConnectionLost \<Rightarrow> AutoReconnect | ServerError \<Rightarrow> OperationFailure)"

text \<open>Another writer's insert is subject to the unique index on \<^verbatim>\<open>_id\<close> as well.\<close>

fun add_arrivals :: "(int \<times> doc) list \<Rightarrow> (int \<times> doc) list \<Rightarrow> (int \<times> doc) list" where
  "add_arrivals [] rs = rs"
| "add_arrivals ((i, d) # others) rs =
     add_arrivals others (if i \<in> set (map fst rs) then rs else rs @ [(i, d)])"

definition env_next :: "store \<Rightarrow> fault option \<times> store" where
  "env_next db =
     (case sched db of
        [] \<Rightarrow> (None, db)
      | s # rest \<Rightarrow> (fault s, db\<lparr>runs := add_arrivals (arrivals s) (runs db), sched := rest\<rparr>))"

text \<open>
  \<^verbatim>\<open>runs.insert_one(entry)\<close>: the driver encodes the document first (\<^verbatim>\<open>InvalidDocument\<close>),
  then the server applies the write, refusing an \<^verbatim>\<open>_id\<close> that is taken.
\<close>

definition insert_one :: "int \<Rightarrow> doc \<Rightarrow> store \<Rightarrow> (error + unit) \<times> store" where
  "insert_one i d db =
     (if \<not> encodable_doc d then (Inl InvalidDocument, db)
      else (case env_next db of
              (Some f, db1) \<Rightarrow> (Inl (fault_error f), db1)
            | (None, db1) \<Rightarrow>
                if i \<in> set (map fst (runs db1)) then (Inl DuplicateKeyError, db1)
                else (Inr (), db1\<lparr>runs := runs db1 @ [(i, d)]\<rparr>)))"

text \<open>
  \<^verbatim>\<open>$set\<close>: each named field is replaced or added, the others are kept.
\<close>

definition set_fields :: "doc \<Rightarrow> doc \<Rightarrow> doc" where
  "set_fields new old = fold (\<lambda>(k, v). AList.update k v) new old"

fun update_first :: "int \<Rightarrow> doc \<Rightarrow> (int \<times> doc) list \<Rightarrow> (int \<times> doc) list" where
  "update_first i new [] = []"
| "update_first i new ((j, old) # rs) =
     (if j = i then (j, set_fields new old) # rs else (j, old) # update_first i new rs)"

text \<open>
  \<^verbatim>\<open>runs.update_one({"_id": i}, {"$set": new})\<close>, without upsert: the first run with that id
  is updated, and nothing happens when there is none. An \<^verbatim>\<open>_id\<close> of \<^verbatim>\<open>None\<close> matches no
  stored run.
\<close>

definition update_one :: "int option \<Rightarrow> doc \<Rightarrow> store \<Rightarrow> (error + unit) \<times> store" where
  "update_one i new db =
     (if \<not> encodable_doc new then (Inl InvalidDocument, db)
      else (case env_next db of
              (Some f, db1) \<Rightarrow> (Inl (fault_error f), db1)
            | (None, db1) \<Rightarrow>
                (case i of
                   None \<Rightarrow> (Inr (), db1)
                 | Some j \<Rightarrow> (Inr (), db1\<lparr>runs := update_first j new (runs db1)\<rparr>))))"

text \<open>A metric batch, as \<^verbatim>\<open>metrics[key]\<close> holds it.\<close>

record batch =
  b_steps :: "val list"
  b_values :: "val list"
  b_timestamps :: "val list"

definition metric_match :: "int option \<Rightarrow> string \<Rightarrow> metric_doc \<Rightarrow> bool" where
  "metric_match rid key m = (m_run_id m = rid \<and> m_name m = key)"

definition push_batch :: "batch \<Rightarrow> metric_doc \<Rightarrow> metric_doc" where
  "push_batch b m =
     m\<lparr>m_steps := m_steps m @ b_steps b,
       m_values := m_values m @ b_values b,
       m_timestamps := m_timestamps m @ b_timestamps b\<rparr>"

fun push_first :: "int option \<Rightarrow> string \<Rightarrow> batch \<Rightarrow> metric_doc list \<Rightarrow> metric_doc list" where
  "push_first rid key b [] = []"
| "push_first rid key b (m # ms) =
     (if metric_match rid key m then push_batch b m # ms else m # push_first rid key b ms)"

text \<open>
  \<^verbatim>\<open>metrics.update_one(query, {"$push": push}, upsert=True)\<close> with \<^verbatim>\<open>$each\<close> on the three
  arrays. The result is the \<^verbatim>\<open>upserted_id\<close>: the new ObjectId when the document was created,
  \<^verbatim>\<open>None\<close> when an existing one was extended.
\<close>

definition upsert_push :: "int option \<Rightarrow> string \<Rightarrow> batch \<Rightarrow> store \<Rightarrow> (error + nat option) \<times> store" where
  "upsert_push rid key b db =
     (if \<not> (list_all encodable (b_steps b) \<and> list_all encodable (b_values b)
             \<and> list_all encodable (b_timestamps b))
      then (Inl InvalidDocument, db)
      else if list_ex (metric_match rid key) (metrics db)
      then (Inr None, db\<lparr>metrics := push_first rid key b (metrics db)\<rparr>)
      else (Inr (Some (next_oid db)),
            db\<lparr>metrics := metrics db @
                   [\<lparr>m_oid = next_oid db, m_run_id = rid, m_name = key, m_steps = b_steps b,
                     m_values = b_values b, m_timestamps = b_timestamps b\<rparr>],
               next_oid := Suc (next_oid db)\<rparr>))"

text \<open>
  \<^verbatim>\<open>fs.find_one({"filename": p, "md5": h})\<close> and \<^verbatim>\<open>fs.put(f, filename=p)\<close>. The client passes
  only the name to \<^verbatim>\<open>put\<close>: the hash of the new blob is the one the blob store computes from
  the content (\<open>gridfs_md5\<close>, a parameter: drivers from 4.0 on record none).
\<close>

definition fs_find_one :: "string \<Rightarrow> string \<Rightarrow> fs_file list \<Rightarrow> fs_file option" where
  "fs_find_one p h files = find (\<lambda>f. filename f = p \<and> md5 f = Some h) files"

definition fs_put :: "(string \<Rightarrow> string option) \<Rightarrow> string \<Rightarrow> string \<Rightarrow> store \<Rightarrow> nat \<times> store" where
  "fs_put gridfs_md5 p bytes db =
     (next_oid db,
      db\<lparr>fs := fs db @ [\<lparr>file_id = next_oid db, filename = p, md5 = gridfs_md5 bytes,
                            content = bytes\<rparr>],
         next_oid := Suc (next_oid db)\<rparr>)"


section \<open>The client\<close>

text \<open>
  The parsed run record that \<^verbatim>\<open>main.py\<close> reads from \<^verbatim>\<open>run.json\<close>. \<open>ex_info\<close> is
  \<^verbatim>\<open>run['experiment']\<close>: its base directory, its manifest of (source name, hash) pairs and
  its other keys.
\<close>

record ex_info =
  base_dir :: string
  sources :: "(string \<times> string) list"
  ex_other :: doc

record run_record =
  run_experiment :: ex_info
  command :: val
  host :: val
  start_time :: string
  stop_time :: string
  meta :: val
  status :: val
  result :: val
  heartbeat :: string

text \<open>
  What the libraries compute: \<^verbatim>\<open>datetime.strptime(s, TIME_FORMAT)\<close>, with \<open>None\<close> for the
  \<^verbatim>\<open>ValueError\<close> of a text that does not parse, the hash GridFS records for a content, and
  the code points above ASCII that are decimal digits.
\<close>

record pylib =
  strptime :: "string \<Rightarrow> val option"
  gridfs_md5 :: "string \<Rightarrow> string option"
  unicode_nd :: "nat \<Rightarrow> bool"

text \<open>
  A run entry is the dictionary \<^verbatim>\<open>self.run_entry\<close>: its \<^verbatim>\<open>_id\<close>, which is \<^verbatim>\<open>None\<close> until an id
  is allocated, and its other fields. The collections the client holds are the database,
  passed to each operation.
\<close>

record entry =
  eid :: "int option"
  efields :: doc

record client =
  overwrite :: "entry option"
  run_entry :: "entry option"
  priority :: int
  failure_dir :: "string option"

definition VERSION :: string where
  "VERSION = ''FileStorageObserver-0.0.1''"

definition DEFAULT_MONGO_PRIORITY :: int where
  "DEFAULT_MONGO_PRIORITY = 30"

definition not_found_message :: "int \<Rightarrow> string" where
  "not_found_message i =
     ''Couldn'' @ [CHR 0x27] @ ''t find run to overwrite with _id='' @ [CHR 0x27] @ show_int i @ [CHR 0x27]"

text \<open>
  \<^verbatim>\<open>initialize\<close>, which \<^verbatim>\<open>__init__\<close> calls once it has the collections: the overwrite
  target is looked up here, and the client keeps the run it found.
\<close>

definition initialize :: "store \<Rightarrow> int option \<Rightarrow> string option \<Rightarrow> int \<Rightarrow> error + client" where
  "initialize db overwrite_id fdir prio =
     (case overwrite_id of
        None \<Rightarrow> Inr \<lparr>overwrite = None, run_entry = None, priority = prio, failure_dir = fdir\<rparr>
      | Some i \<Rightarrow>
          (case map_of (runs db) i of
             None \<Rightarrow> Inl (RuntimeError (not_found_message i))
           | Some d \<Rightarrow>
               Inr \<lparr>overwrite = Some \<lparr>eid = Some i, efields = d\<rparr>, run_entry = None,
                    priority = prio, failure_dir = fdir\<rparr>))"

text \<open>
  On the overwrite path \<^verbatim>\<open>self.run_entry\<close> and \<^verbatim>\<open>self.overwrite\<close> are one dictionary, so a
  mutation of the entry shows in both.
\<close>

definition put_entry :: "entry \<Rightarrow> client \<Rightarrow> client" where
  "put_entry e c = c\<lparr>overwrite := map_option (\<lambda>_. e) (overwrite c), run_entry := Some e\<rparr>"

text \<open>
  \<^verbatim>\<open>save\<close>: \<^verbatim>\<open>new_data or self.run_entry\<close> is the whole entry when \<^verbatim>\<open>new_data\<close> is empty. The
  \<^verbatim>\<open>_id\<close> the whole entry carries is the one the filter selects, so setting it changes
  nothing. \<^verbatim>\<open>AutoReconnect\<close> is dropped; the handler of \<^verbatim>\<open>InvalidDocument\<close> raises through the
  unbound name \<^verbatim>\<open>ObserverError\<close>.
\<close>

definition save :: "doc \<Rightarrow> client \<Rightarrow> store \<Rightarrow> (error + unit) \<times> store" where
  "save new_data c db =
     (case run_entry c of
        None \<Rightarrow> (Inl TypeError, db)
      | Some e \<Rightarrow>
          (case update_one (eid e) (if new_data = [] then efields e else new_data) db of
             (Inl AutoReconnect, db1) \<Rightarrow> (Inr (), db1)
           | (Inl InvalidDocument, db1) \<Rightarrow> (Inl (NameError ''ObserverError''), db1)
           | (r, db1) \<Rightarrow> (r, db1)))"

text \<open>
  The candidate id: the runs sorted by \<^verbatim>\<open>_id\<close>, descending, the first one's id plus one;
  \<open>1\<close> when \<^verbatim>\<open>count_documents\<close> finds the collection empty.
\<close>

definition next_id :: "(int \<times> doc) list \<Rightarrow> int" where
  "next_id rs = (if rs = [] then 1 else hd (rev (sort (map fst rs))) + 1)"

lemma sorted_le_last: "sorted xs \<Longrightarrow> x \<in> set xs \<Longrightarrow> x \<le> last (xs :: int list)"
  by (induction xs) auto

lemma next_id_Max: "rs \<noteq> [] \<Longrightarrow> next_id rs = Max (set (map fst rs)) + 1"
proof -
  assume ne: "rs \<noteq> []"
  let ?ids = "sort (map fst rs)"
  have ne': "?ids \<noteq> []" using ne by (metis length_0_conv length_map length_sort)
  have mem: "last ?ids \<in> set (map fst rs)"
    using last_in_set[OF ne'] by simp
  have ub: "i \<le> last ?ids" if "i \<in> set (map fst rs)" for i
    using that sorted_le_last[of ?ids i] by simp
  have "Max (set (map fst rs)) = last ?ids"
    by (rule Max_eqI) (use mem ub in auto)
  then show ?thesis using ne ne' by (simp add: next_id_def hd_rev)
qed

lemma next_id_fresh: "next_id rs \<notin> set (map fst rs)"
proof (cases "rs = []")
  case True
  then show ?thesis by simp
next
  case False
  have "\<forall>i \<in> set (map fst rs). i \<le> Max (set (map fst rs))"
    by simp
  then show ?thesis
    using next_id_Max[OF False] by fastforce
qed

lemma insert_one_conflict_sched:
  assumes "insert_one (next_id (runs db)) d db = (Inl DuplicateKeyError, db1)"
  shows "length (sched db1) < length (sched db)"
proof (cases "sched db")
  case Nil
  then show ?thesis
    using assms next_id_fresh[of "runs db"]
    by (auto simp: insert_one_def env_next_def split: if_splits)
next
  case (Cons s rest)
  then show ?thesis
    using assms
    by (auto simp: insert_one_def env_next_def fault_error_def split: if_splits option.splits fault.splits)
qed

text \<open>
  The loop of \<^verbatim>\<open>insert\<close>. \<open>given\<close> is the \<^verbatim>\<open>_id\<close> the entry came with, so \<^verbatim>\<open>autoinc_key\<close> is
  \<open>given = None\<close>. Each turn recomputes the candidate and sends one insert; the loop goes
  round again only on a \<^verbatim>\<open>DuplicateKeyError\<close> under \<^verbatim>\<open>autoinc_key\<close>, which takes an arrival of
  the schedule, so it ends when the schedule does. The result carries the \<^verbatim>\<open>_id\<close> the loop
  left in the entry.
\<close>

function insert_loop :: "int option \<Rightarrow> doc \<Rightarrow> store \<Rightarrow> (error + unit) \<times> int \<times> store" where
  "insert_loop given d db =
     (let i = (case given of None \<Rightarrow> next_id (runs db) | Some j \<Rightarrow> j) in
      case insert_one i d db of
        (Inr u, db1) \<Rightarrow> (Inr (), i, db1)
      | (Inl InvalidDocument, db1) \<Rightarrow> (Inl (NameError ''ObserverError''), i, db1)
      | (Inl DuplicateKeyError, db1) \<Rightarrow>
          (if given = None then insert_loop given d db1 else (Inl DuplicateKeyError, i, db1))
      | (Inl err, db1) \<Rightarrow> (Inl err, i, db1))"
  by pat_completeness auto
termination
  apply (relation "measure (\<lambda>(given, d, db). length (sched db))")
   apply simp
  apply (auto dest: insert_one_conflict_sched [OF sym])
  done

declare insert_loop.simps [simp del]

definition insert :: "client \<Rightarrow> store \<Rightarrow> (error + unit) \<times> client \<times> store" where
  "insert c db =
     (if overwrite c \<noteq> None then (case save [] c db of (r, db1) \<Rightarrow> (r, c, db1))
      else (case run_entry c of
              None \<Rightarrow> (Inl AttributeError, c, db)
            | Some e \<Rightarrow>
                (case insert_loop (eid e) (efields e) db of
                   (r, i, db1) \<Rightarrow> (r, put_entry (e\<lparr>eid := Some i\<rparr>) c, db1))))"

text \<open>
  \<^verbatim>\<open>save_sources\<close>: one blob per manifest entry, looked up by path and hash and read from the
  snapshot directory when the lookup finds none. The directory is what \<^verbatim>\<open>open\<close> finds under a
  source name: the bytes of the file, or nothing.
\<close>

fun save_sources_loop ::
  "pylib \<Rightarrow> string \<Rightarrow> (string \<Rightarrow> string option) \<Rightarrow> (string \<times> string) list \<Rightarrow> val list \<Rightarrow> store
     \<Rightarrow> (error + val list) \<times> store" where
  "save_sources_loop L base dir [] source_info db = (Inr source_info, db)"
| "save_sources_loop L base dir ((source_name, h) # es) source_info db =
     (let abs_path = path_join base source_name in
      case fs_find_one abs_path h (fs db) of
        Some f \<Rightarrow>
          save_sources_loop L base dir es
            (source_info @ [VList [VStr source_name, VOid (file_id f)]]) db
      | None \<Rightarrow>
          (case dir source_name of
             None \<Rightarrow> (Inl (FileNotFoundError source_name), db)
           | Some bytes \<Rightarrow>
               (case fs_put (gridfs_md5 L) abs_path bytes db of
                  (i, db1) \<Rightarrow>
                    save_sources_loop L base dir es
                      (source_info @ [VList [VStr source_name, VOid i]]) db1)))"

definition save_sources ::
  "pylib \<Rightarrow> ex_info \<Rightarrow> (string \<Rightarrow> string option) \<Rightarrow> store \<Rightarrow> (error + val list) \<times> store" where
  "save_sources L ex dir db = save_sources_loop L (base_dir ex) dir (sources ex) [] db"

text \<open>
  The metrics loop of \<^verbatim>\<open>finished_event\<close>. \<open>reg\<close> is the list under \<^verbatim>\<open>info["metrics"]\<close>, which
  \<^verbatim>\<open>setdefault\<close> creates at the first registration: \<^verbatim>\<open>info\<close> is empty until then.
\<close>

definition registry_entry :: "string \<Rightarrow> nat \<Rightarrow> val" where
  "registry_entry key oid = VDict [(''name'', VStr key), (''id'', VStr (oid_str oid))]"

fun merge_metrics ::
  "int option \<Rightarrow> (string \<times> batch) list \<Rightarrow> val list \<Rightarrow> store \<Rightarrow> (error + val list) \<times> store" where
  "merge_metrics rid [] reg db = (Inr reg, db)"
| "merge_metrics rid ((key, b) # ms) reg db =
     (case upsert_push rid key b db of
        (Inl err, db1) \<Rightarrow> (Inl err, db1)
      | (Inr upserted_id, db1) \<Rightarrow>
          merge_metrics rid ms
            (case upserted_id of None \<Rightarrow> reg | Some oid \<Rightarrow> reg @ [registry_entry key oid]) db1)"

definition info_doc :: "val list \<Rightarrow> doc" where
  "info_doc reg = (if reg = [] then [] else [(''metrics'', VList reg)])"

text \<open>The dictionary \<^verbatim>\<open>run['experiment']\<close> as a value, and the fields \<^verbatim>\<open>finished_event\<close> sets.\<close>

definition experiment_dict :: "ex_info \<Rightarrow> doc" where
  "experiment_dict ex =
     (''base_dir'', VStr (base_dir ex))
     # (''sources'', VList (map (\<lambda>(n, h). VList [VStr n, VStr h]) (sources ex)))
     # ex_other ex"

definition base_fields :: "pylib \<Rightarrow> run_record \<Rightarrow> val \<Rightarrow> error + doc" where
  "base_fields L run config =
     (case strptime L (start_time run) of
        None \<Rightarrow> Inl ValueError
      | Some t_start \<Rightarrow>
          (case strptime L (stop_time run) of
             None \<Rightarrow> Inl ValueError
           | Some t_stop \<Rightarrow>
               (case strptime L (heartbeat run) of
                  None \<Rightarrow> Inl ValueError
                | Some t_beat \<Rightarrow>
                    Inr [(''experiment'', VDict (experiment_dict (run_experiment run))),
                         (''format'', VStr VERSION),
                         (''command'', command run),
                         (''host'', host run),
                         (''start_time'', t_start),
                         (''stop_time'', t_stop),
                         (''config'', config),
                         (''meta'', meta run),
                         (''status'', status run),
                         (''result'', result run),
                         (''resources'', VList []),
                         (''artifacts'', VList []),
                         (''captured_out'', VText []),
                         (''info'', VDict []),
                         (''heartbeat'', t_beat)])))"

text \<open>Lines 130 to 136: which dictionary becomes the run entry.\<close>

definition begin_entry :: "int option \<Rightarrow> client \<Rightarrow> error + client" where
  "begin_entry given c =
     (case overwrite c of
        None \<Rightarrow> Inr (c\<lparr>run_entry := Some \<lparr>eid = given, efields = []\<rparr>\<rparr>)
      | Some target \<Rightarrow>
          if run_entry c \<noteq> None then Inl (RuntimeError ''Cannot overwrite more than once!'')
          else Inr (c\<lparr>run_entry := Some target\<rparr>))"

text \<open>
  Lines 138 to 163: \<^verbatim>\<open>run_entry.update\<close> with the run's fields, then the source links, which
  are empty without a snapshot directory.
\<close>

definition with_sources :: "ex_info \<Rightarrow> val list \<Rightarrow> entry \<Rightarrow> entry" where
  "with_sources ex srcs e =
     e\<lparr>efields :=
         AList.update ''experiment''
           (VDict (AList.update ''sources'' (VList srcs) (experiment_dict ex))) (efields e)\<rparr>"

definition assemble ::
  "pylib \<Rightarrow> run_record \<Rightarrow> val \<Rightarrow> (string \<Rightarrow> string option) option \<Rightarrow> client \<Rightarrow> store
     \<Rightarrow> (error + unit) \<times> client \<times> store" where
  "assemble L run config code_base_dir c db =
     (case run_entry c of
        None \<Rightarrow> (Inl AttributeError, c, db)
      | Some e \<Rightarrow>
          (case base_fields L run config of
             Inl err \<Rightarrow> (Inl err, c, db)
           | Inr upd \<Rightarrow>
               (let e1 = e\<lparr>efields := set_fields upd (efields e)\<rparr>;
                    c1 = put_entry e1 c
                in case code_base_dir of
                     None \<Rightarrow> (Inr (), put_entry (with_sources (run_experiment run) [] e1) c1, db)
                   | Some dir \<Rightarrow>
                       (case save_sources L (run_experiment run) dir db of
                          (Inl err, db1) \<Rightarrow> (Inl err, c1, db1)
                        | (Inr srcs, db1) \<Rightarrow>
                            (Inr (), put_entry (with_sources (run_experiment run) srcs e1) c1, db1)))))"

text \<open>Lines 169 to 171: the captured output, with the marker rewritten to the final id.\<close>

definition store_output :: "pylib \<Rightarrow> utext \<Rightarrow> client \<Rightarrow> store \<Rightarrow> (error + int option) \<times> store" where
  "store_output L cout c db =
     (case run_entry c of
        None \<Rightarrow> (Inl TypeError, db)
      | Some e \<Rightarrow>
          (case save [(''captured_out'', VText (rewrite_cout (unicode_nd L) (eid e) cout))] c db of
             (Inl err, db1) \<Rightarrow> (Inl err, db1)
           | (Inr u, db1) \<Rightarrow> (Inr (eid e), db1)))"

text \<open>Lines 174 to 190: the metric batches and the registry.\<close>

definition store_metrics ::
  "(string \<times> batch) list option \<Rightarrow> int option \<Rightarrow> client \<Rightarrow> store \<Rightarrow> (error + unit) \<times> store" where
  "store_metrics mets rid c db =
     (case mets of
        None \<Rightarrow> (Inr (), db)
      | Some ms \<Rightarrow>
          if ms = [] then (Inr (), db)
          else (case merge_metrics rid ms [] db of
                  (Inl err, db1) \<Rightarrow> (Inl err, db1)
                | (Inr reg, db1) \<Rightarrow> save [(''info'', VDict (info_doc reg))] c db1))"

text \<open>
  \<^verbatim>\<open>finished_event(run, cout, config, metrics, code_base_dir, _id)\<close>. An exception leaves
  the client and the database as the steps before it made them.
\<close>

definition finished_event ::
  "pylib \<Rightarrow> run_record \<Rightarrow> utext \<Rightarrow> val \<Rightarrow> (string \<times> batch) list option
     \<Rightarrow> (string \<Rightarrow> string option) option \<Rightarrow> int option \<Rightarrow> client \<Rightarrow> store
     \<Rightarrow> (error + int option) \<times> client \<times> store" where
  "finished_event L run cout config mets code_base_dir given c db =
     (case begin_entry given c of
        Inl err \<Rightarrow> (Inl err, c, db)
      | Inr c0 \<Rightarrow>
          (case assemble L run config code_base_dir c0 db of
             (Inl err, c1, db1) \<Rightarrow> (Inl err, c1, db1)
           | (Inr u, c1, db1) \<Rightarrow>
               (case insert c1 db1 of
                  (Inl err, c2, db2) \<Rightarrow> (Inl err, c2, db2)
                | (Inr u, c2, db2) \<Rightarrow>
                    (case store_output L cout c2 db2 of
                       (Inl err, db3) \<Rightarrow> (Inl err, c2, db3)
                     | (Inr rid, db3) \<Rightarrow>
                         (case store_metrics mets rid c2 db3 of
                            (Inl err, db4) \<Rightarrow> (Inl err, c2, db4)
                          | (Inr u, db4) \<Rightarrow> (Inr rid, c2, db4))))))"


section \<open>Notions the claims are stated with\<close>

text \<open>
  A metric document is aligned when its three arrays have one length, and so is a batch.
  \<open>series\<close> is the three arrays of a metric document.
\<close>

definition aligned :: "metric_doc \<Rightarrow> bool" where
  "aligned m = (length (m_steps m) = length (m_values m) \<and> length (m_values m) = length (m_timestamps m))"

definition batch_aligned :: "batch \<Rightarrow> bool" where
  "batch_aligned b = (length (b_steps b) = length (b_values b) \<and> length (b_values b) = length (b_timestamps b))"

definition series :: "metric_doc \<Rightarrow> val list \<times> val list \<times> val list" where
  "series m = (m_steps m, m_values m, m_timestamps m)"




text \<open>The metric name a registry entry carries.\<close>

definition entry_name :: "val \<Rightarrow> string option" where
  "entry_name v =
     (case v of
        VDict kvs \<Rightarrow> (case map_of kvs ''name'' of Some (VStr k) \<Rightarrow> Some k | _ \<Rightarrow> None)
      | _ \<Rightarrow> None)"



text \<open>No write of the schedule is dropped by a lost connection.\<close>

definition no_drop :: "store \<Rightarrow> bool" where
  "no_drop db = list_all (\<lambda>s. fault s \<noteq> Some ConnectionLost) (sched db)"




section \<open>Sample inputs\<close>

text \<open>Small databases, clients and run records on which the statements below are exercised.\<close>

definition demo_old :: doc where
  "demo_old = [(''status'', VStr ''RUNNING''), (''note'', VStr ''kept'')]"

definition demo_db :: store where
  "demo_db = \<lparr>runs = [(3, demo_old)], metrics = [], fs = [], next_oid = 0, sched = []\<rparr>"

definition demo_entry :: entry where
  "demo_entry = \<lparr>eid = Some 3, efields = [(''status'', VStr ''COMPLETED''), (''config'', VInt 7)]\<rparr>"

definition demo_client :: client where
  "demo_client = \<lparr>overwrite = None, run_entry = Some demo_entry, priority = 30, failure_dir = None\<rparr>"

text \<open>
  The libraries at the sample inputs. \<open>iso_strptime\<close> accepts a timestamp of the exact shape
  \<^verbatim>\<open>YYYY-MM-DDTHH:MM:SS.ffffff\<close> with a year from 1, a month from 1 to 12, a day from 1 to 28,
  an hour below 24 and minutes and seconds below 60, and rejects every other text:
  \<^verbatim>\<open>datetime.strptime\<close> with \<^verbatim>\<open>TIME_FORMAT\<close> parses each text it accepts. \<open>demo_lib\<close> is a
  driver from 4.0 on, which records no hash for a blob; \<open>legacy_lib\<close> is an older driver,
  with the MD5 digest at the one content the samples store. The decimal digits above ASCII
  are the Arabic-Indic ones, the only such code points in the sample texts.
\<close>

definition all_digits :: "string \<Rightarrow> bool" where
  "all_digits s = list_all (\<lambda>ch. ch \<in> set ''0123456789'') s"

definition below_sixty :: "string \<Rightarrow> bool" where
  "below_sixty s = (length s = 2 \<and> hd s \<in> set ''012345'' \<and> all_digits s)"

definition iso_strptime :: "string \<Rightarrow> val option" where
  "iso_strptime s =
     (if length s = 26
         \<and> all_digits (take 4 s) \<and> take 4 s \<noteq> ''0000'' \<and> s ! 4 = CHR ''-''
         \<and> take 2 (drop 5 s) \<in> set [''01'', ''02'', ''03'', ''04'', ''05'', ''06'', ''07'', ''08'',
               ''09'', ''10'', ''11'', ''12'']
         \<and> s ! 7 = CHR ''-''
         \<and> take 2 (drop 8 s) \<in> set [''01'', ''02'', ''03'', ''04'', ''05'', ''06'', ''07'', ''08'',
               ''09'', ''10'', ''11'', ''12'', ''13'', ''14'', ''15'', ''16'', ''17'', ''18'', ''19'',
               ''20'', ''21'', ''22'', ''23'', ''24'', ''25'', ''26'', ''27'', ''28'']
         \<and> s ! 10 = CHR ''T''
         \<and> take 2 (drop 11 s) \<in> set [''00'', ''01'', ''02'', ''03'', ''04'', ''05'', ''06'', ''07'',
               ''08'', ''09'', ''10'', ''11'', ''12'', ''13'', ''14'', ''15'', ''16'', ''17'', ''18'',
               ''19'', ''20'', ''21'', ''22'', ''23'']
         \<and> s ! 13 = CHR '':'' \<and> below_sixty (take 2 (drop 14 s))
         \<and> s ! 16 = CHR '':'' \<and> below_sixty (take 2 (drop 17 s))
         \<and> s ! 19 = CHR ''.'' \<and> all_digits (drop 20 s)
      then Some (VTime s) else None)"

definition arabic_indic :: "nat \<Rightarrow> bool" where
  "arabic_indic cp = (1632 \<le> cp \<and> cp \<le> 1641)"

definition demo_lib :: pylib where
  "demo_lib = \<lparr>strptime = iso_strptime, gridfs_md5 = (\<lambda>bytes. None), unicode_nd = arabic_indic\<rparr>"

definition source_text :: string where
  "source_text = ''print(1)'' @ [CHR 0x0A]"

definition source_md5 :: string where
  "source_md5 = ''dee5c46989f5ec092311188f4fe829c3''"

definition legacy_lib :: pylib where
  "legacy_lib = \<lparr>strptime = iso_strptime,
                  gridfs_md5 = (\<lambda>bytes. if bytes = source_text then Some source_md5 else None),
                  unicode_nd = arabic_indic\<rparr>"

definition demo_run :: run_record where
  "demo_run = \<lparr>run_experiment = \<lparr>base_dir = ''/src'', sources = [(''a.py'', source_md5)],
                   ex_other = [(''name'', VStr ''demo'')]\<rparr>,
               command = VStr ''main'', host = VStr ''box'',
               start_time = ''2021-03-04T05:06:07.000008'',
               stop_time = ''2021-03-04T05:16:07.500000'', meta = VDict [],
               status = VStr ''COMPLETED'', result = VInt 0,
               heartbeat = ''2021-03-04T05:16:09.250000''\<rparr>"

definition plain_out :: utext where
  "plain_out = codes ''out''"


definition fresh_client :: client where
  "fresh_client = \<lparr>overwrite = None, run_entry = None, priority = 30, failure_dir = None\<rparr>"

definition demo_dir :: "string \<Rightarrow> string option" where
  "demo_dir n = (if n = ''a.py'' then Some source_text else None)"

definition loss_doc :: metric_doc where
  "loss_doc = \<lparr>m_oid = 9, m_run_id = Some 4, m_name = ''loss'', m_steps = [VInt 0, VInt 1],
                m_values = [VOther 10, VOther 20], m_timestamps = [VStr ''t0'', VStr ''t1'']\<rparr>"

definition later_batch :: batch where
  "later_batch = \<lparr>b_steps = [VInt 2], b_values = [VOther 30], b_timestamps = [VStr ''t2'']\<rparr>"

definition metrics_db :: store where
  "metrics_db = \<lparr>runs = [(3, demo_old)], metrics = [loss_doc], fs = [], next_oid = 10, sched = []\<rparr>"













section \<open>Auxiliary facts\<close>

subsection \<open>Documents and updates\<close>

lemma map_of_set_fields: "map_of (set_fields new old) = map_of old ++ map_of (rev new)"
  unfolding set_fields_def
proof (induction new arbitrary: old)
  case Nil
  then show ?case by simp
next
  case (Cons kv new)
  obtain k v where kv: "kv = (k, v)" by (cases kv)
  have "map_of (fold (\<lambda>(k, v). AList.update k v) new (AList.update k v old))
        = map_of (AList.update k v old) ++ map_of (rev new)"
    by (rule Cons.IH)
  also have "\<dots> = map_of old ++ map_of (rev new @ [(k, v)])"
    by (simp add: update_conv' map_add_upd_left fun_eq_iff map_add_def split: option.splits)
  finally show ?case by (simp add: kv)
qed

lemma map_of_rev_distinct: "distinct (map fst xs) \<Longrightarrow> map_of (rev xs) = map_of xs"
proof (induction xs)
  case Nil
  then show ?case by simp
next
  case (Cons kv xs)
  obtain k v where kv: "kv = (k, v)" by (cases kv)
  have "k \<notin> dom (map_of xs)"
    using Cons.prems by (simp add: kv dom_map_of_conv_image_fst)
  then have "map_of xs k = None" by blast
  then show ?case
    using Cons by (auto simp: kv fun_eq_iff map_add_def split: option.splits)
qed

lemma map_of_update_first:
  "map_of (update_first i new rs) j =
     (if j = i then map_option (set_fields new) (map_of rs i) else map_of rs j)"
  by (induction rs) auto

lemma save_quiet:
  assumes "run_entry c = Some e" "sched db = []"
    and "encodable_doc (if nd = [] then efields e else nd)"
  shows "save nd c db =
    (Inr (), case eid e of None \<Rightarrow> db
       | Some i \<Rightarrow> db\<lparr>runs := update_first i (if nd = [] then efields e else nd) (runs db)\<rparr>)"
  using assms by (auto simp: save_def update_one_def env_next_def split: option.splits)


subsection \<open>The marker pattern\<close>









subsection \<open>Metric documents\<close>

lemma list_ex_find: "list_ex P xs = (find P xs \<noteq> None)"
  by (induction xs) auto

lemma find_snoc: "find P (xs @ [y]) = (case find P xs of None \<Rightarrow> (if P y then Some y else None) | Some x \<Rightarrow> Some x)"
  by (induction xs) auto

lemma metric_match_push_batch [simp]: "metric_match rid key (push_batch b m) = metric_match rid key m"
  by (simp add: metric_match_def push_batch_def)

lemma find_push_first_same:
  "find (metric_match rid key) (push_first rid key b ms)
   = map_option (push_batch b) (find (metric_match rid key) ms)"
  by (induction ms) auto

lemma find_push_first_other:
  "(rid', key') \<noteq> (rid, key) \<Longrightarrow>
   find (metric_match rid' key') (push_first rid key b ms) = find (metric_match rid' key') ms"
  by (induction ms) (auto simp: metric_match_def push_batch_def)

lemma upsert_push_Inr:
  assumes "upsert_push rid key b db = (Inr up, db')"
  shows "(case find (metric_match rid key) (metrics db) of
            Some m \<Rightarrow> up = None \<and> db' = db\<lparr>metrics := push_first rid key b (metrics db)\<rparr>
          | None \<Rightarrow> up = Some (next_oid db) \<and>
              db' = db\<lparr>metrics := metrics db @
                   [\<lparr>m_oid = next_oid db, m_run_id = rid, m_name = key, m_steps = b_steps b,
                     m_values = b_values b, m_timestamps = b_timestamps b\<rparr>],
               next_oid := Suc (next_oid db)\<rparr>)"
proof (cases "find (metric_match rid key) (metrics db)")
  case None
  then have "\<not> list_ex (metric_match rid key) (metrics db)" by (simp add: list_ex_find)
  then show ?thesis
    using assms None unfolding upsert_push_def by (simp split: if_splits)
next
  case (Some m)
  then have "list_ex (metric_match rid key) (metrics db)" by (simp add: list_ex_find)
  then show ?thesis
    using assms Some unfolding upsert_push_def by (simp split: if_splits)
qed

lemma upsert_push_cases:
  assumes "upsert_push rid key b db = (r, db')"
  shows "db' = db
      \<or> db' = db\<lparr>metrics := push_first rid key b (metrics db)\<rparr>
      \<or> (find (metric_match rid key) (metrics db) = None \<and>
         db' = db\<lparr>metrics := metrics db @
                   [\<lparr>m_oid = next_oid db, m_run_id = rid, m_name = key, m_steps = b_steps b,
                     m_values = b_values b, m_timestamps = b_timestamps b\<rparr>],
               next_oid := Suc (next_oid db)\<rparr>)"
proof (cases r)
  case (Inl err)
  then have "db' = db"
    using assms unfolding upsert_push_def by (simp split: if_splits)
  then show ?thesis by simp
next
  case (Inr up)
  show ?thesis
    using upsert_push_Inr[OF assms[unfolded Inr]]
    by (cases "find (metric_match rid key) (metrics db)") simp_all
qed

lemma upsert_push_same:
  assumes "upsert_push rid key b db = (Inr up, db')"
  shows "\<exists>m'. find (metric_match rid key) (metrics db') = Some m'
     \<and> series m' = (case find (metric_match rid key) (metrics db) of
                      None \<Rightarrow> (b_steps b, b_values b, b_timestamps b)
                    | Some m \<Rightarrow> (m_steps m @ b_steps b, m_values m @ b_values b,
                                 m_timestamps m @ b_timestamps b))
     \<and> up = (case find (metric_match rid key) (metrics db) of
               None \<Rightarrow> Some (m_oid m') | Some m \<Rightarrow> None)"
proof (cases "find (metric_match rid key) (metrics db)")
  case None
  then show ?thesis
    using upsert_push_Inr[OF assms]
    by (simp add: find_snoc series_def metric_match_def)
next
  case (Some m)
  then show ?thesis
    using upsert_push_Inr[OF assms]
    by (simp add: find_push_first_same series_def push_batch_def)
qed

lemma upsert_push_other:
  assumes "upsert_push rid key b db = (r, db')" and "(rid', key') \<noteq> (rid, key)"
  shows "find (metric_match rid' key') (metrics db') = find (metric_match rid' key') (metrics db)"
proof -
  have "\<not> metric_match rid' key' \<lparr>m_oid = next_oid db, m_run_id = rid, m_name = key,
          m_steps = b_steps b, m_values = b_values b, m_timestamps = b_timestamps b\<rparr>"
    using assms(2) by (auto simp: metric_match_def)
  then show ?thesis
    using upsert_push_cases[OF assms(1)] find_push_first_other[OF assms(2)]
    by (auto simp: find_snoc split: option.splits)
qed

lemma upsert_push_frame:
  assumes "upsert_push rid key b db = (r, db')"
  shows "runs db' = runs db \<and> fs db' = fs db \<and> sched db' = sched db"
  using upsert_push_cases[OF assms] by auto

lemma aligned_push_batch: "batch_aligned b \<Longrightarrow> aligned m \<Longrightarrow> aligned (push_batch b m)"
  by (simp add: aligned_def batch_aligned_def push_batch_def)

lemma aligned_push_first:
  "batch_aligned b \<Longrightarrow> \<forall>m \<in> set ms. aligned m \<Longrightarrow> \<forall>m \<in> set (push_first rid key b ms). aligned m"
  by (induction ms) (simp_all add: aligned_push_batch)

lemma upsert_push_aligned:
  assumes "upsert_push rid key b db = (r, db')" and "batch_aligned b"
    and "\<forall>m \<in> set (metrics db). aligned m"
  shows "\<forall>m \<in> set (metrics db'). aligned m"
proof -
  let ?new = "\<lparr>m_oid = next_oid db, m_run_id = rid, m_name = key, m_steps = b_steps b,
                     m_values = b_values b, m_timestamps = b_timestamps b\<rparr>"
  have new: "aligned ?new"
    using assms(2) by (simp add: aligned_def batch_aligned_def)
  have pushed: "\<forall>m \<in> set (push_first rid key b (metrics db)). aligned m"
    using aligned_push_first[OF assms(2,3)] .
  have "metrics db' = metrics db \<or> metrics db' = push_first rid key b (metrics db)
      \<or> metrics db' = metrics db @ [?new]"
    using upsert_push_cases[OF assms(1)] by (elim disjE) simp_all
  then show ?thesis
  proof (elim disjE)
    assume "metrics db' = metrics db"
    then show ?thesis using assms(3) by simp
  next
    assume "metrics db' = push_first rid key b (metrics db)"
    then show ?thesis using pushed by simp
  next
    assume "metrics db' = metrics db @ [?new]"
    then show ?thesis using assms(3) new by simp
  qed
qed

lemma merge_metrics_frame:
  "merge_metrics rid ms reg db = (r, db') \<Longrightarrow>
   runs db' = runs db \<and> fs db' = fs db \<and> sched db' = sched db"
proof (induction ms arbitrary: reg db)
  case Nil
  then show ?case by simp
next
  case (Cons kb ms)
  obtain key b where kb: "kb = (key, b)" by (cases kb)
  obtain r1 db1 where u: "upsert_push rid key b db = (r1, db1)" by (cases "upsert_push rid key b db")
  show ?case
  proof (cases r1)
    case (Inl err)
    then show ?thesis using Cons.prems u upsert_push_frame[OF u] by (simp add: kb)
  next
    case (Inr up)
    then have "merge_metrics rid ms (case up of None \<Rightarrow> reg | Some oid \<Rightarrow> reg @ [registry_entry key oid]) db1 = (r, db')"
      using Cons.prems u by (simp add: kb)
    from Cons.IH[OF this] show ?thesis using upsert_push_frame[OF u] by simp
  qed
qed

lemma merge_metrics_aligned:
  "merge_metrics rid ms reg db = (r, db') \<Longrightarrow> \<forall>(k, b) \<in> set ms. batch_aligned b \<Longrightarrow>
   \<forall>m \<in> set (metrics db). aligned m \<Longrightarrow> \<forall>m \<in> set (metrics db'). aligned m"
proof (induction ms arbitrary: reg db)
  case Nil
  then show ?case by simp
next
  case (Cons kb ms)
  obtain key b where kb: "kb = (key, b)" by (cases kb)
  obtain r1 db1 where u: "upsert_push rid key b db = (r1, db1)" by (cases "upsert_push rid key b db")
  have b: "batch_aligned b" using Cons.prems(2) by (simp add: kb)
  have a1: "\<forall>m \<in> set (metrics db1). aligned m"
    using upsert_push_aligned[OF u b Cons.prems(3)] .
  show ?case
  proof (cases r1)
    case (Inl err)
    then show ?thesis using Cons.prems(1) u a1 by (simp add: kb)
  next
    case (Inr up)
    then have "merge_metrics rid ms (case up of None \<Rightarrow> reg | Some oid \<Rightarrow> reg @ [registry_entry key oid]) db1 = (r, db')"
      using Cons.prems u by (simp add: kb)
    from Cons.IH[OF this _ a1] show ?thesis using Cons.prems(2) by simp
  qed
qed

lemma merge_metrics_other:
  "merge_metrics rid ms reg db = (r, db') \<Longrightarrow> (rid' \<noteq> rid \<or> key' \<notin> fst ` set ms) \<Longrightarrow>
   find (metric_match rid' key') (metrics db') = find (metric_match rid' key') (metrics db)"
proof (induction ms arbitrary: reg db)
  case Nil
  then show ?case by simp
next
  case (Cons kb ms)
  obtain key b where kb: "kb = (key, b)" by (cases kb)
  obtain r1 db1 where u: "upsert_push rid key b db = (r1, db1)" by (cases "upsert_push rid key b db")
  have ne: "(rid', key') \<noteq> (rid, key)" using Cons.prems(2) by (auto simp: kb)
  have o: "find (metric_match rid' key') (metrics db1) = find (metric_match rid' key') (metrics db)"
    using upsert_push_other[OF u ne] .
  show ?case
  proof (cases r1)
    case (Inl err)
    then show ?thesis using Cons.prems(1) u o by (simp add: kb)
  next
    case (Inr up)
    then have "merge_metrics rid ms (case up of None \<Rightarrow> reg | Some oid \<Rightarrow> reg @ [registry_entry key oid]) db1 = (r, db')"
      using Cons.prems u by (simp add: kb)
    from Cons.IH[OF this] show ?thesis using Cons.prems(2) o by auto
  qed
qed

lemma merge_metrics_series:
  "merge_metrics rid ms reg db = (Inr reg', db') \<Longrightarrow> distinct (map fst ms) \<Longrightarrow> (key, b) \<in> set ms \<Longrightarrow>
   \<exists>m'. find (metric_match rid key) (metrics db') = Some m'
     \<and> series m' = (case find (metric_match rid key) (metrics db) of
                      None \<Rightarrow> (b_steps b, b_values b, b_timestamps b)
                    | Some m \<Rightarrow> (m_steps m @ b_steps b, m_values m @ b_values b,
                                 m_timestamps m @ b_timestamps b))"
proof (induction ms arbitrary: reg db)
  case Nil
  then show ?case by simp
next
  case (Cons kb ms)
  obtain k0 b0 where kb: "kb = (k0, b0)" by (cases kb)
  obtain r1 db1 where u: "upsert_push rid k0 b0 db = (r1, db1)" by (cases "upsert_push rid k0 b0 db")
  from Cons.prems(1) u obtain up where r1: "r1 = Inr up"
    by (cases r1) (auto simp: kb)
  let ?reg1 = "case up of None \<Rightarrow> reg | Some oid \<Rightarrow> reg @ [registry_entry k0 oid]"
  have rest: "merge_metrics rid ms ?reg1 db1 = (Inr reg', db')"
    using Cons.prems(1) u r1 by (simp add: kb)
  have notin: "k0 \<notin> fst ` set ms" using Cons.prems(2) by (simp add: kb)
  show ?case
  proof (cases "key = k0")
    case True
    then have "(key, b) \<notin> set ms" using notin by force
    then have b: "b = b0" using Cons.prems(3) True by (simp add: kb)
    have "find (metric_match rid key) (metrics db') = find (metric_match rid key) (metrics db1)"
      using merge_metrics_other[OF rest] notin True by blast
    then show ?thesis
      using upsert_push_same[OF u[unfolded r1]] True b by auto
  next
    case False
    then have mem: "(key, b) \<in> set ms" using Cons.prems(3) by (simp add: kb)
    have "find (metric_match rid key) (metrics db1) = find (metric_match rid key) (metrics db)"
      using upsert_push_other[OF u] False by blast
    moreover have "distinct (map fst ms)" using Cons.prems(2) by simp
    ultimately show ?thesis
      using Cons.IH[OF rest _ mem] by simp
  qed
qed


subsection \<open>What each operation leaves alone\<close>

lemma env_next_frame:
  "env_next db = (f, db1) \<Longrightarrow> metrics db1 = metrics db \<and> fs db1 = fs db \<and> next_oid db1 = next_oid db"
  by (cases "sched db") (auto simp: env_next_def)

lemma env_next_quiet: "sched db = [] \<Longrightarrow> env_next db = (None, db)"
  by (simp add: env_next_def)

lemma insert_one_frame:
  assumes "insert_one i d db = (r, db1)"
  shows "metrics db1 = metrics db \<and> fs db1 = fs db \<and> next_oid db1 = next_oid db"
proof -
  obtain f db0 where e: "env_next db = (f, db0)" by (cases "env_next db")
  have "db1 = db \<or> db1 = db0 \<or> db1 = db0\<lparr>runs := runs db0 @ [(i, d)]\<rparr>"
    using assms e unfolding insert_one_def by (auto split: if_splits option.splits)
  then show ?thesis using env_next_frame[OF e] by auto
qed

lemma update_one_frame:
  assumes "update_one i d db = (r, db1)"
  shows "metrics db1 = metrics db \<and> fs db1 = fs db \<and> next_oid db1 = next_oid db"
proof -
  obtain f db0 where e: "env_next db = (f, db0)" by (cases "env_next db")
  have "db1 = db \<or> db1 = db0 \<or> (\<exists>j. db1 = db0\<lparr>runs := update_first j d (runs db0)\<rparr>)"
    using assms e unfolding update_one_def by (auto split: if_splits option.splits)
  then show ?thesis using env_next_frame[OF e] by auto
qed

lemma save_frame:
  assumes "save nd c db = (r, db1)"
  shows "metrics db1 = metrics db \<and> fs db1 = fs db \<and> next_oid db1 = next_oid db"
proof (cases "run_entry c")
  case None
  then show ?thesis using assms by (simp add: save_def)
next
  case (Some e)
  let ?d = "if nd = [] then efields e else nd"
  obtain r0 db0 where u: "update_one (eid e) ?d db = (r0, db0)"
    by (cases "update_one (eid e) ?d db")
  have "db1 = db0"
    using assms Some u unfolding save_def by (simp split: sum.splits error.splits)
  then show ?thesis using update_one_frame[OF u] by simp
qed

lemma insert_loop_unfold:
  assumes "insert_one i d db = (r0, db1)"
    and "i = (case given of None \<Rightarrow> next_id (runs db) | Some j \<Rightarrow> j)"
  shows "insert_loop given d db =
        (case r0 of
           Inr u \<Rightarrow> (Inr (), i, db1)
         | Inl err \<Rightarrow>
             if err = InvalidDocument then (Inl (NameError ''ObserverError''), i, db1)
             else if err = DuplicateKeyError \<and> given = None then insert_loop given d db1
             else (Inl err, i, db1))"
  using insert_loop.simps[of given d db]
  unfolding Let_def assms(2)[symmetric] assms(1)
  by (simp split: sum.splits error.splits)

lemma insert_loop_frame:
  "insert_loop given d db = (r, i, db1) \<Longrightarrow>
   metrics db1 = metrics db \<and> fs db1 = fs db \<and> next_oid db1 = next_oid db"
proof (induction given d db rule: insert_loop.induct)
  case (1 given d db)
  let ?i = "case given of None \<Rightarrow> next_id (runs db) | Some j \<Rightarrow> j"
  obtain r0 db0 where io: "insert_one ?i d db = (r0, db0)" by (cases "insert_one ?i d db")
  note fr = insert_one_frame[OF io]
  note un = insert_loop_unfold[OF io refl]
  show ?case
  proof (cases "r0 = Inl DuplicateKeyError \<and> given = None")
    case True
    then have "insert_loop given d db0 = (r, i, db1)"
      using un "1.prems" by simp
    moreover have "(r0, db0) = insert_one ?i d db" using io by simp
    ultimately have "metrics db1 = metrics db0 \<and> fs db1 = fs db0 \<and> next_oid db1 = next_oid db0"
      using "1.IH"[of ?i r0 db0 DuplicateKeyError] True by simp
    then show ?thesis using fr by simp
  next
    case False
    then have "db1 = db0"
      using un "1.prems" by (auto split: sum.splits if_splits)
    then show ?thesis using fr by simp
  qed
qed

lemma insert_frame:
  assumes "insert c db = (r, c1, db1)"
  shows "metrics db1 = metrics db \<and> fs db1 = fs db \<and> next_oid db1 = next_oid db"
proof (cases "overwrite c \<noteq> None")
  case True
  obtain r0 db0 where s: "save [] c db = (r0, db0)" by (cases "save [] c db")
  then have "db1 = db0" using assms True by (simp add: insert_def)
  then show ?thesis using save_frame[OF s] by simp
next
  case False
  show ?thesis
  proof (cases "run_entry c")
    case None
    then show ?thesis using assms False by (simp add: insert_def)
  next
    case (Some e)
    obtain r0 i db0 where l: "insert_loop (eid e) (efields e) db = (r0, i, db0)"
      by (cases "insert_loop (eid e) (efields e) db")
    then have "db1 = db0" using assms False Some by (simp add: insert_def)
    then show ?thesis using insert_loop_frame[OF l] by simp
  qed
qed

lemma fs_put_frame:
  "fs_put h p bytes db = (i, db1) \<Longrightarrow>
   runs db1 = runs db \<and> metrics db1 = metrics db \<and> sched db1 = sched db
   \<and> fs db1 = fs db @ [\<lparr>file_id = next_oid db, filename = p, md5 = h bytes, content = bytes\<rparr>]
   \<and> i = next_oid db"
  by (auto simp: fs_put_def)

lemma save_sources_loop_frame:
  "save_sources_loop L base dir es acc db = (r, db1) \<Longrightarrow>
   runs db1 = runs db \<and> metrics db1 = metrics db \<and> sched db1 = sched db"
proof (induction es arbitrary: acc db)
  case Nil
  then show ?case by simp
next
  case (Cons e es)
  obtain n h where e: "e = (n, h)" by (cases e)
  let ?p = "path_join base n"
  show ?case
  proof (cases "fs_find_one ?p h (fs db)")
    case (Some f)
    then have "save_sources_loop L base dir es (acc @ [VList [VStr n, VOid (file_id f)]]) db = (r, db1)"
      using Cons.prems by (simp add: e)
    from Cons.IH[OF this] show ?thesis .
  next
    case None
    show ?thesis
    proof (cases "dir n")
      case None2: None
      then show ?thesis using Cons.prems None by (simp add: e)
    next
      case (Some bytes)
      obtain i db0 where p: "fs_put (gridfs_md5 L) ?p bytes db = (i, db0)"
        by (cases "fs_put (gridfs_md5 L) ?p bytes db")
      then have "save_sources_loop L base dir es (acc @ [VList [VStr n, VOid i]]) db0 = (r, db1)"
        using Cons.prems None Some by (simp add: e)
      from Cons.IH[OF this] show ?thesis using fs_put_frame[OF p] by simp
    qed
  qed
qed

lemma save_sources_frame:
  "save_sources L ex dir db = (r, db1) \<Longrightarrow>
   runs db1 = runs db \<and> metrics db1 = metrics db \<and> sched db1 = sched db"
  unfolding save_sources_def by (rule save_sources_loop_frame)

lemma assemble_frame:
  assumes "assemble L run config code_base_dir c db = (r, c1, db1)"
  shows "runs db1 = runs db \<and> metrics db1 = metrics db \<and> sched db1 = sched db"
proof (cases "run_entry c")
  case None
  then show ?thesis using assms by (simp add: assemble_def)
next
  case (Some e)
  show ?thesis
  proof (cases "base_fields L run config")
    case (Inl err)
    then show ?thesis using assms Some by (simp add: assemble_def)
  next
    case (Inr upd)
    show ?thesis
    proof (cases code_base_dir)
      case None
      then show ?thesis using assms Some Inr by (simp add: assemble_def Let_def)
    next
      case Some2: (Some dir)
      obtain r0 db0 where s: "save_sources L (run_experiment run) dir db = (r0, db0)"
        by (cases "save_sources L (run_experiment run) dir db")
      then have "db1 = db0"
        using assms Some Inr Some2 by (simp add: assemble_def Let_def split: sum.splits)
      then show ?thesis using save_sources_frame[OF s] by simp
    qed
  qed
qed

lemma store_output_frame:
  assumes "store_output L cout c db = (r, db1)"
  shows "metrics db1 = metrics db \<and> fs db1 = fs db \<and> next_oid db1 = next_oid db"
proof (cases "run_entry c")
  case None
  then show ?thesis using assms by (simp add: store_output_def)
next
  case (Some e)
  let ?nd = "[(''captured_out'', VText (rewrite_cout (unicode_nd L) (eid e) cout))]"
  obtain r0 db0 where s: "save ?nd c db = (r0, db0)" by (cases "save ?nd c db")
  then have "db1 = db0"
    using assms Some by (simp add: store_output_def split: sum.splits)
  then show ?thesis using save_frame[OF s] by simp
qed

lemma finished_event_metrics:
  assumes "finished_event L run cout config mets code_base_dir given c db = (r, c', db')"
  shows "metrics db' = metrics db
       \<or> (\<exists>rid c2 db3 r'. metrics db3 = metrics db \<and> store_metrics mets rid c2 db3 = (r', db'))"
proof (cases "begin_entry given c")
  case (Inl err)
  then show ?thesis using assms by (simp add: finished_event_def)
next
  case (Inr c0)
  obtain r1 c1 db1 where a: "assemble L run config code_base_dir c0 db = (r1, c1, db1)"
    by (cases "assemble L run config code_base_dir c0 db")
  note fa = assemble_frame[OF a]
  show ?thesis
  proof (cases r1)
    case Inl1: (Inl err)
    then have "db' = db1" using assms Inr a by (simp add: finished_event_def)
    then show ?thesis using fa by simp
  next
    case Inr1: (Inr u)
    obtain r2 c2 db2 where i: "insert c1 db1 = (r2, c2, db2)" by (cases "insert c1 db1")
    note fi = insert_frame[OF i]
    show ?thesis
    proof (cases r2)
      case Inl2: (Inl err)
      then have "db' = db2" using assms Inr a Inr1 i by (simp add: finished_event_def)
      then show ?thesis using fa fi by simp
    next
      case Inr2: (Inr u2)
      obtain r3 db3 where o: "store_output L cout c2 db2 = (r3, db3)"
        by (cases "store_output L cout c2 db2")
      note fo = store_output_frame[OF o]
      show ?thesis
      proof (cases r3)
        case Inl3: (Inl err)
        then have "db' = db3" using assms Inr a Inr1 i Inr2 o by (simp add: finished_event_def)
        then show ?thesis using fa fi fo by simp
      next
        case Inr3: (Inr rid)
        obtain r4 db4 where m: "store_metrics mets rid c2 db3 = (r4, db4)"
          by (cases "store_metrics mets rid c2 db3")
        then have "db' = db4"
          using assms Inr a Inr1 i Inr2 o Inr3 by (simp add: finished_event_def split: sum.splits)
        moreover have "metrics db3 = metrics db" using fa fi fo by simp
        ultimately show ?thesis using m by blast
      qed
    qed
  qed
qed

lemma store_metrics_aligned:
  assumes "store_metrics mets rid c db = (r, db')"
    and "\<forall>ms. mets = Some ms \<longrightarrow> (\<forall>(k, b) \<in> set ms. batch_aligned b)"
    and "\<forall>m \<in> set (metrics db). aligned m"
  shows "\<forall>m \<in> set (metrics db'). aligned m"
proof (cases mets)
  case None
  then show ?thesis using assms by (simp add: store_metrics_def)
next
  case (Some ms)
  show ?thesis
  proof (cases "ms = []")
    case True
    then show ?thesis using assms Some by (simp add: store_metrics_def)
  next
    case False
    obtain r1 db1 where m: "merge_metrics rid ms [] db = (r1, db1)"
      by (cases "merge_metrics rid ms [] db")
    have al: "\<forall>m \<in> set (metrics db1). aligned m"
      using merge_metrics_aligned[OF m] assms(2,3) Some by blast
    show ?thesis
    proof (cases r1)
      case (Inl err)
      then have "db' = db1" using assms(1) Some False m by (simp add: store_metrics_def)
      then show ?thesis using al by simp
    next
      case (Inr reg)
      then have "save [(''info'', VDict (info_doc reg))] c db1 = (r, db')"
        using assms(1) Some False m by (simp add: store_metrics_def)
      from save_frame[OF this] show ?thesis using al by simp
    qed
  qed
qed


subsection \<open>The stages of a successful call\<close>

lemma finished_event_InrD:
  assumes "finished_event L run cout config mets code_base_dir given c db = (Inr rid, c', db')"
  shows "\<exists>c0 c1 db1 db2 db3.
           begin_entry given c = Inr c0
         \<and> assemble L run config code_base_dir c0 db = (Inr (), c1, db1)
         \<and> insert c1 db1 = (Inr (), c', db2)
         \<and> store_output L cout c' db2 = (Inr rid, db3)
         \<and> store_metrics mets rid c' db3 = (Inr (), db')"
  using assms unfolding finished_event_def
  by (simp split: sum.splits prod.splits)

lemma store_metrics_InrD:
  assumes "store_metrics (Some ms) rid c db = (Inr u, db')" and "ms \<noteq> []"
  shows "\<exists>reg db1. merge_metrics rid ms [] db = (Inr reg, db1)
           \<and> save [(''info'', VDict (info_doc reg))] c db1 = (Inr (), db')"
  using assms unfolding store_metrics_def
  by (simp split: sum.splits prod.splits)


subsection \<open>A quiet environment\<close>

lemma insert_one_quiet:
  assumes "sched db = []"
  shows "insert_one i d db =
     (if \<not> encodable_doc d then (Inl InvalidDocument, db)
      else if i \<in> set (map fst (runs db)) then (Inl DuplicateKeyError, db)
      else (Inr (), db\<lparr>runs := runs db @ [(i, d)]\<rparr>))"
  using assms by (simp add: insert_one_def env_next_quiet)

lemma insert_loop_quiet:
  assumes "sched db = []"
  shows "insert_loop given d db =
     (let i = (case given of None \<Rightarrow> next_id (runs db) | Some j \<Rightarrow> j) in
      if \<not> encodable_doc d then (Inl (NameError ''ObserverError''), i, db)
      else if i \<in> set (map fst (runs db)) then (Inl DuplicateKeyError, i, db)
      else (Inr (), i, db\<lparr>runs := runs db @ [(i, d)]\<rparr>))"
proof -
  let ?i = "case given of None \<Rightarrow> next_id (runs db) | Some j \<Rightarrow> j"
  obtain r0 db0 where io: "insert_one ?i d db = (r0, db0)" by (cases "insert_one ?i d db")
  have fresh: "given = None \<Longrightarrow> (?i, x) \<notin> set (runs db)" for x
    using next_id_fresh[of "runs db"] by force
  show ?thesis
    using insert_loop_unfold[OF io refl] io fresh
    unfolding insert_one_quiet[OF assms] Let_def
    by (auto split: if_splits)
qed

lemma save_quiet_InrD:
  assumes "save nd c db = (Inr u, db')" and "sched db = []" and "run_entry c = Some e"
  shows "db' = (case eid e of None \<Rightarrow> db
       | Some i \<Rightarrow> db\<lparr>runs := update_first i (if nd = [] then efields e else nd) (runs db)\<rparr>)"
proof (cases "encodable_doc (if nd = [] then efields e else nd)")
  case True
  then show ?thesis using save_quiet[OF assms(3,2), of nd] assms(1) by simp
next
  case False
  then have "update_one (eid e) (if nd = [] then efields e else nd) db = (Inl InvalidDocument, db)"
    by (simp add: update_one_def)
  then have "save nd c db = (Inl (NameError ''ObserverError''), db)"
    using assms(3) by (simp add: save_def)
  then show ?thesis using assms(1) by simp
qed

lemma save_sched:
  assumes "save nd c db = (r, db')" and "sched db = []"
  shows "sched db' = []"
proof (cases "run_entry c")
  case None
  then show ?thesis using assms by (simp add: save_def)
next
  case (Some e)
  let ?d = "if nd = [] then efields e else nd"
  obtain r0 db0 where u: "update_one (eid e) ?d db = (r0, db0)"
    by (cases "update_one (eid e) ?d db")
  have "db' = db0"
    using assms(1) Some u unfolding save_def by (simp split: sum.splits error.splits)
  moreover have "sched db0 = []"
    using u assms(2) unfolding update_one_def
    by (auto simp: env_next_quiet split: if_splits option.splits)
  ultimately show ?thesis by simp
qed

lemma insert_sched:
  assumes "insert c db = (r, c', db')" and "sched db = []"
  shows "sched db' = []"
proof (cases "overwrite c \<noteq> None")
  case True
  obtain r0 db0 where s: "save [] c db = (r0, db0)" by (cases "save [] c db")
  then have "db' = db0" using assms(1) True by (simp add: insert_def)
  then show ?thesis using save_sched[OF s assms(2)] by simp
next
  case False
  show ?thesis
  proof (cases "run_entry c")
    case None
    then show ?thesis using assms False by (simp add: insert_def)
  next
    case (Some e)
    show ?thesis
      using assms False Some unfolding insert_def insert_loop_quiet[OF assms(2)] Let_def
      by (auto split: if_splits)
  qed
qed

lemma store_output_InrD:
  assumes "store_output L cout c db = (Inr rid, db')"
  shows "\<exists>e. run_entry c = Some e \<and> rid = eid e
           \<and> save [(''captured_out'', VText (rewrite_cout (unicode_nd L) (eid e) cout))] c db = (Inr (), db')"
  using assms unfolding store_output_def
  by (simp split: option.splits sum.splits prod.splits)

lemma insert_fresh_quiet_InrD:
  assumes "insert c1 db1 = (Inr u, c', db2)" and "overwrite c1 = None"
    and "run_entry c1 = Some e1" and "sched db1 = []"
  shows "\<exists>i. i = (case eid e1 of None \<Rightarrow> next_id (runs db1) | Some j \<Rightarrow> j)
           \<and> i \<notin> set (map fst (runs db1)) \<and> encodable_doc (efields e1)
           \<and> c' = put_entry (e1\<lparr>eid := Some i\<rparr>) c1
           \<and> db2 = db1\<lparr>runs := runs db1 @ [(i, efields e1)]\<rparr>"
  using assms unfolding insert_def insert_loop_quiet[OF assms(4)] Let_def
  by (simp split: if_splits)

lemma insert_overwrite_quiet_InrD:
  assumes "insert c1 db1 = (Inr u, c', db2)" and "overwrite c1 \<noteq> None"
    and "run_entry c1 = Some e1" and "sched db1 = []"
  shows "c' = c1 \<and> db2 = (case eid e1 of None \<Rightarrow> db1
           | Some i \<Rightarrow> db1\<lparr>runs := update_first i (efields e1) (runs db1)\<rparr>)"
proof -
  obtain r0 db0 where s: "save [] c1 db1 = (r0, db0)" by (cases "save [] c1 db1")
  then have "r0 = Inr u" "c' = c1" "db2 = db0"
    using assms(1,2) by (simp_all add: insert_def)
  then show ?thesis
    using save_quiet_InrD[OF s[unfolded \<open>r0 = Inr u\<close>] assms(4,3)] by simp
qed

lemma tail_quiet:
  assumes o: "store_output L cout c' db2 = (Inr rid, db3)"
    and m: "store_metrics mets rid c' db3 = (Inr u, db')"
    and q: "sched db2 = []"
  shows "\<exists>e. run_entry c' = Some e \<and> rid = eid e \<and> sched db3 = []
     \<and> runs db3 = (case rid of None \<Rightarrow> runs db2
          | Some i \<Rightarrow> update_first i [(''captured_out'', VText (rewrite_cout (unicode_nd L) rid cout))] (runs db2))
     \<and> ((runs db' = runs db3 \<and> (mets = None \<or> mets = Some []))
        \<or> (\<exists>ms reg db4. mets = Some ms \<and> ms \<noteq> [] \<and> merge_metrics rid ms [] db3 = (Inr reg, db4)
             \<and> metrics db' = metrics db4
             \<and> runs db' = (case rid of None \<Rightarrow> runs db3
                  | Some i \<Rightarrow> update_first i [(''info'', VDict (info_doc reg))] (runs db3))))"
proof -
  from store_output_InrD[OF o] obtain e where e: "run_entry c' = Some e" "rid = eid e"
    and s: "save [(''captured_out'', VText (rewrite_cout (unicode_nd L) (eid e) cout))] c' db2 = (Inr (), db3)"
    by blast
  have q3: "sched db3 = []" using save_sched[OF s q] .
  have r3: "runs db3 = (case rid of None \<Rightarrow> runs db2
          | Some i \<Rightarrow> update_first i [(''captured_out'', VText (rewrite_cout (unicode_nd L) rid cout))] (runs db2))"
    using save_quiet_InrD[OF s q e(1)] e(2) by (simp split: option.splits)
  have last: "(runs db' = runs db3 \<and> (mets = None \<or> mets = Some []))
        \<or> (\<exists>ms reg db4. mets = Some ms \<and> ms \<noteq> [] \<and> merge_metrics rid ms [] db3 = (Inr reg, db4)
             \<and> metrics db' = metrics db4
             \<and> runs db' = (case rid of None \<Rightarrow> runs db3
                  | Some i \<Rightarrow> update_first i [(''info'', VDict (info_doc reg))] (runs db3)))"
  proof (cases "mets = None \<or> mets = Some []")
    case True
    then have "db' = db3" using m by (auto simp: store_metrics_def)
    then show ?thesis using True by simp
  next
    case False
    then obtain ms where ms: "mets = Some ms" "ms \<noteq> []" by (cases mets) auto
    from store_metrics_InrD[OF m[unfolded ms(1)] ms(2)] obtain reg db4 where
      mm: "merge_metrics rid ms [] db3 = (Inr reg, db4)"
      and sv: "save [(''info'', VDict (info_doc reg))] c' db4 = (Inr (), db')" by blast
    have f4: "runs db4 = runs db3" "sched db4 = []"
      using merge_metrics_frame[OF mm] q3 by simp_all
    have "runs db' = (case rid of None \<Rightarrow> runs db3
                  | Some i \<Rightarrow> update_first i [(''info'', VDict (info_doc reg))] (runs db3))"
      using save_quiet_InrD[OF sv f4(2) e(1)] e(2) f4(1) by (simp split: option.splits)
    moreover have "metrics db' = metrics db4" using save_frame[OF sv] by simp
    ultimately show ?thesis using ms mm by blast
  qed
  show ?thesis using e q3 r3 last by blast
qed


subsection \<open>The registry built by the metrics loop\<close>


lemma map_of_set_field_one: "map_of (set_fields [(k, v)] old) k = Some v"
  by (simp add: map_of_set_fields)

lemma update_first_keys: "map fst (update_first i new rs) = map fst rs"
  by (induction rs) auto

lemma entry_name_registry_entry [simp]: "entry_name (registry_entry k oid) = Some k"
  by (simp add: entry_name_def registry_entry_def)




lemma put_entry_twice [simp]: "put_entry e' (put_entry e c) = put_entry e' c"
  by (cases "overwrite c") (simp_all add: put_entry_def)

lemma put_entry_sel [simp]:
  "run_entry (put_entry e c) = Some e"
  "overwrite (put_entry e c) = map_option (\<lambda>_. e) (overwrite c)"
  by (simp_all add: put_entry_def)

lemma assemble_InrD:
  assumes "assemble L run config code_base_dir c0 db = (Inr u, c1, db1)"
  shows "\<exists>e0 upd srcs.
           run_entry c0 = Some e0 \<and> base_fields L run config = Inr upd
         \<and> c1 = put_entry (with_sources (run_experiment run) srcs
                   (e0\<lparr>efields := set_fields upd (efields e0)\<rparr>)) c0
         \<and> (case code_base_dir of
              None \<Rightarrow> srcs = [] \<and> db1 = db
            | Some dir \<Rightarrow> save_sources L (run_experiment run) dir db = (Inr srcs, db1))"
  using assms unfolding assemble_def Let_def
  by (simp split: option.splits sum.splits prod.splits)

lemma begin_entry_InrD:
  assumes "begin_entry given c = Inr c0"
  shows "(overwrite c = None \<and> c0 = c\<lparr>run_entry := Some \<lparr>eid = given, efields = []\<rparr>\<rparr>)
       \<or> (\<exists>target. overwrite c = Some target \<and> run_entry c = None \<and> c0 = c\<lparr>run_entry := Some target\<rparr>)"
  using assms unfolding begin_entry_def
  by (simp split: option.splits if_splits)



lemma fresh_run_present:
  assumes fe: "finished_event L run cout config mets code_base_dir given c db = (Inr rid, c', db')"
    and q: "sched db = []" and fresh: "overwrite c = None"
  shows "\<exists>i d. rid = Some i \<and> map_of (runs db') i = Some d"
proof -
  from finished_event_InrD[OF fe] obtain c0 c1 db1 db2 db3 where
    b: "begin_entry given c = Inr c0"
    and a: "assemble L run config code_base_dir c0 db = (Inr (), c1, db1)"
    and i: "insert c1 db1 = (Inr (), c', db2)"
    and o: "store_output L cout c' db2 = (Inr rid, db3)"
    and m: "store_metrics mets rid c' db3 = (Inr (), db')" by blast
  have c0: "overwrite c0 = None" using begin_entry_InrD[OF b] fresh by auto
  from assemble_InrD[OF a] obtain e1 where c1: "run_entry c1 = Some e1" "overwrite c1 = None"
    using c0 by auto
  have q1: "sched db1 = []" using assemble_frame[OF a] q by simp
  from insert_fresh_quiet_InrD[OF i c1(2,1) q1] obtain j where
    j: "c' = put_entry (e1\<lparr>eid := Some j\<rparr>) c1" "db2 = db1\<lparr>runs := runs db1 @ [(j, efields e1)]\<rparr>"
    by blast
  have q2: "sched db2 = []" using insert_sched[OF i q1] .
  from tail_quiet[OF o m q2] obtain e where e: "run_entry c' = Some e" "rid = eid e"
    and r3: "runs db3 = (case rid of None \<Rightarrow> runs db2
          | Some i \<Rightarrow> update_first i [(''captured_out'', VText (rewrite_cout (unicode_nd L) rid cout))] (runs db2))"
    and r': "runs db' = runs db3 \<or> (\<exists>reg. runs db' = (case rid of None \<Rightarrow> runs db3
                  | Some i \<Rightarrow> update_first i [(''info'', VDict (info_doc reg))] (runs db3)))"
    by blast
  have "Some e = Some (e1\<lparr>eid := Some j\<rparr>)" using e(1) j(1) by simp
  then have "eid e = Some j" by auto
  then have rid: "rid = Some j" using e(2) by simp
  have keys: "map fst (runs db') = map fst (runs db2)"
    using r3 r' rid by (auto simp: update_first_keys)
  have "j \<in> set (map fst (runs db2))" using j(2) by simp
  then have "j \<in> set (map fst (runs db'))" using keys by simp
  then have "map_of (runs db') j \<noteq> None" by (simp add: map_of_eq_None_iff)
  then show ?thesis using rid by auto
qed


subsection \<open>The captured output a call stores\<close>

lemma stored_output_quiet:
  assumes fe: "finished_event L run cout config mets code_base_dir given c db = (Inr rid, c', db')"
    and q: "sched db = []" and rid: "rid = Some i" and d: "map_of (runs db') i = Some d"
  shows "map_of d ''captured_out'' = Some (VText (rewrite_cout (unicode_nd L) rid cout))"
proof -
  from finished_event_InrD[OF fe] obtain c0 c1 db1 db2 db3 where
    a: "assemble L run config code_base_dir c0 db = (Inr (), c1, db1)"
    and i: "insert c1 db1 = (Inr (), c', db2)"
    and o: "store_output L cout c' db2 = (Inr rid, db3)"
    and m: "store_metrics mets rid c' db3 = (Inr (), db')" by blast
  have q1: "sched db1 = []" using assemble_frame[OF a] q by simp
  have q2: "sched db2 = []" using insert_sched[OF i q1] .
  let ?out = "[(''captured_out'', VText (rewrite_cout (unicode_nd L) rid cout))]"
  from tail_quiet[OF o m q2] have
    r3: "runs db3 = update_first i ?out (runs db2)"
    and r': "runs db' = runs db3
        \<or> (\<exists>reg. runs db' = update_first i [(''info'', VDict (info_doc reg))] (runs db3))"
    using rid by auto
  from r' show ?thesis
  proof
    assume "runs db' = runs db3"
    then have "map_of (runs db') i = map_option (set_fields ?out) (map_of (runs db2) i)"
      using r3 by (simp add: map_of_update_first)
    then obtain old where "d = set_fields ?out old"
      using d by (cases "map_of (runs db2) i") auto
    then show ?thesis by (simp add: map_of_set_field_one)
  next
    assume "\<exists>reg. runs db' = update_first i [(''info'', VDict (info_doc reg))] (runs db3)"
    then obtain reg where "runs db' = update_first i [(''info'', VDict (info_doc reg))] (runs db3)"
      by blast
    then have "map_of (runs db') i = map_option (set_fields [(''info'', VDict (info_doc reg))])
        (map_option (set_fields ?out) (map_of (runs db2) i))"
      using r3 by (simp add: map_of_update_first)
    then obtain old where "d = set_fields [(''info'', VDict (info_doc reg))] (set_fields ?out old)"
      using d by (cases "map_of (runs db2) i") auto
    then show ?thesis by (simp add: map_of_set_fields)
  qed
qed


subsection \<open>Any environment\<close>



lemma env_next_no_drop:
  assumes "env_next db = (f, db0)" and "no_drop db"
  shows "no_drop db0 \<and> f \<noteq> Some ConnectionLost"
proof (cases "sched db")
  case Nil
  then show ?thesis using assms by (auto simp: env_next_def no_drop_def)
next
  case (Cons s rest)
  then have "f = fault s" "sched db0 = rest"
    using assms(1) by (auto simp: env_next_def)
  then show ?thesis using assms(2) Cons by (simp add: no_drop_def)
qed

lemma update_one_cases:
  assumes "update_one i d db = (r, db')"
  shows "(r = Inl InvalidDocument \<and> db' = db)
       \<or> (\<exists>f db0. env_next db = (Some f, db0) \<and> r = Inl (fault_error f) \<and> db' = db0)
       \<or> (\<exists>db0. env_next db = (None, db0) \<and> r = Inr ()
            \<and> db' = (case i of None \<Rightarrow> db0 | Some j \<Rightarrow> db0\<lparr>runs := update_first j d (runs db0)\<rparr>))"
proof (cases "encodable_doc d")
  case False
  then show ?thesis using assms by (simp add: update_one_def)
next
  case True
  obtain f db0 where e: "env_next db = (f, db0)" by (cases "env_next db")
  show ?thesis
    using assms True e unfolding update_one_def
    by (cases f; cases i) auto
qed

lemma save_no_drop_InrD:
  assumes "save nd c db = (Inr u, db')" and "no_drop db" and "run_entry c = Some e"
  shows "\<exists>db0. env_next db = (None, db0)
     \<and> db' = (case eid e of None \<Rightarrow> db0
         | Some i \<Rightarrow> db0\<lparr>runs := update_first i (if nd = [] then efields e else nd) (runs db0)\<rparr>)"
proof -
  let ?d = "if nd = [] then efields e else nd"
  obtain r0 db1 where u: "update_one (eid e) ?d db = (r0, db1)"
    by (cases "update_one (eid e) ?d db")
  have s: "save nd c db = (case r0 of Inl AutoReconnect \<Rightarrow> (Inr (), db1)
       | Inl InvalidDocument \<Rightarrow> (Inl (NameError ''ObserverError''), db1)
       | _ \<Rightarrow> (r0, db1))"
    using assms(3) u by (simp add: save_def split: sum.splits error.splits)
  from update_one_cases[OF u] show ?thesis
  proof (elim disjE exE conjE)
    assume "r0 = Inl InvalidDocument"
    then show ?thesis using s assms(1) by simp
  next
    fix f db0 assume f: "env_next db = (Some f, db0)" "r0 = Inl (fault_error f)"
    have "f \<noteq> ConnectionLost" using env_next_no_drop[OF f(1) assms(2)] by simp
    then have "f = ServerError" by (cases f) simp_all
    then show ?thesis using s assms(1) f(2) by (simp add: fault_error_def)
  next
    fix db0 assume "env_next db = (None, db0)" "r0 = Inr ()"
      "db1 = (case eid e of None \<Rightarrow> db0 | Some j \<Rightarrow> db0\<lparr>runs := update_first j ?d (runs db0)\<rparr>)"
    then show ?thesis using s assms(1) by simp
  qed
qed




















subsection \<open>Fields a later write keeps\<close>











section \<open>Construction\<close>

text \<open>
  Claim C8. A client constructed with an overwrite target id fails in \<open>initialize\<close> with the
  \<^verbatim>\<open>RuntimeError\<close> "Couldn't find run to overwrite" when the runs collection holds no run with
  that id; when it holds one, the client is built around the run that was found, with no
  run entry yet. So a client with an overwrite target exists only if the target existed
  when it was constructed: the lookup is made here and not in \<open>finished_event\<close>.
\<close>

theorem initialize_checks_overwrite_target:
  "(if i \<in> fst ` set (runs db)
    then \<exists>d. map_of (runs db) i = Some d \<and>
           initialize db (Some i) fdir prio =
             Inr \<lparr>overwrite = Some \<lparr>eid = Some i, efields = d\<rparr>, run_entry = None,
                  priority = prio, failure_dir = fdir\<rparr>
    else initialize db (Some i) fdir prio = Inl (RuntimeError (not_found_message i)))"
proof (cases "map_of (runs db) i")
  case None
  then have "i \<notin> fst ` set (runs db)"
    by (simp add: map_of_eq_None_iff)
  then show ?thesis
    using None by (simp add: initialize_def)
next
  case (Some d)
  then have "i \<in> fst ` set (runs db)"
    by (metis map_of_eq_None_iff option.distinct(1))
  then show ?thesis
    using Some by (simp add: initialize_def)
qed

theorem initialize_checks_overwrite_target_witness:
  "initialize demo_db (Some 4) None 30 = Inl (RuntimeError (not_found_message 4))
   \<and> initialize demo_db (Some 3) None 30 =
       Inr \<lparr>overwrite = Some \<lparr>eid = Some 3, efields = demo_old\<rparr>, run_entry = None,
            priority = 30, failure_dir = None\<rparr>"
  using initialize_checks_overwrite_target [of 4 demo_db None 30]
    initialize_checks_overwrite_target [of 3 demo_db None 30]
  by (simp add: demo_db_def)


section \<open>Saving\<close>

text \<open>
  Claim C10. \<open>save\<close> with an empty mapping is the same call as \<open>save\<close> with all the fields of
  the current run entry: in a quiet environment it succeeds and the stored run then has
  every field of the entry, the rest of the stored document kept. A non-empty mapping
  sets the fields it names and no other.
\<close>

theorem save_empty_writes_whole_entry:
  assumes "run_entry c = Some e" and "eid e = Some i"
    and "sched db = []" and "encodable_doc (efields e)"
    and "map_of (runs db) i = Some old"
    and "distinct (map fst (efields e))"
  shows "save [] c db = save (efields e) c db
       \<and> fst (save [] c db) = Inr ()
       \<and> (\<exists>new. map_of (runs (snd (save [] c db))) i = Some new
              \<and> map_of new = map_of old ++ map_of (efields e))
       \<and> (\<forall>nd. nd \<noteq> [] \<and> encodable_doc nd \<and> distinct (map fst nd) \<longrightarrow>
              (\<exists>new. map_of (runs (snd (save nd c db))) i = Some new
                 \<and> map_of new = map_of old ++ map_of nd))"
proof -
  have same: "save [] c db = save (efields e) c db"
    using assms(1) by (simp add: save_def)
  have full: "save [] c db = (Inr (), db\<lparr>runs := update_first i (efields e) (runs db)\<rparr>)"
    using save_quiet[of c e db "[]"] assms by simp
  have part: "save nd c db = (Inr (), db\<lparr>runs := update_first i nd (runs db)\<rparr>)"
    if "nd \<noteq> []" "encodable_doc nd" for nd
    using save_quiet[of c e db nd] assms that by simp
  show ?thesis
    unfolding same [symmetric]
    using full part assms(5,6)
    by (simp add: map_of_update_first map_of_set_fields map_of_rev_distinct)
qed

theorem save_empty_writes_whole_entry_witness:
  "run_entry demo_client = Some demo_entry \<and> eid demo_entry = Some 3 \<and> sched demo_db = []
   \<and> encodable_doc (efields demo_entry) \<and> map_of (runs demo_db) 3 = Some demo_old
   \<and> distinct (map fst (efields demo_entry))
   \<and> save [] demo_client demo_db = save (efields demo_entry) demo_client demo_db
   \<and> fst (save [] demo_client demo_db) = Inr ()
   \<and> (\<exists>new. map_of (runs (snd (save [] demo_client demo_db))) 3 = Some new
          \<and> map_of new = map_of demo_old ++ map_of (efields demo_entry))
   \<and> (\<exists>new. map_of (runs (snd (save [(''info'', VDict [])] demo_client demo_db))) 3 = Some new
          \<and> map_of new = map_of demo_old ++ map_of [(''info'', VDict [])])"
proof -
  have h: "run_entry demo_client = Some demo_entry" "eid demo_entry = Some 3" "sched demo_db = []"
    "encodable_doc (efields demo_entry)" "map_of (runs demo_db) 3 = Some demo_old"
    "distinct (map fst (efields demo_entry))"
    by (simp_all add: demo_client_def demo_entry_def demo_db_def encodable_doc_def)
  have n: "[(''info'', VDict [])] \<noteq> [] \<and> encodable_doc [(''info'', VDict [])]
      \<and> distinct (map fst [(''info'', VDict [])])"
    by (simp add: encodable_doc_def)
  show ?thesis
    using h n save_empty_writes_whole_entry [OF h] by blast
qed


section \<open>Metric series\<close>

text \<open>
  Claim C5. A call of \<open>finished_event\<close> that merges batches whose three sequences have one
  length keeps every metric document aligned, whatever the outcome of the call. When the
  call succeeds, the series stored for the run id and each metric name of the mapping is
  its previous series with the steps, values and timestamps of the batch appended in
  order, and the batch alone when no document existed for that pair.
\<close>

theorem merge_extends_series:
  assumes "finished_event L run cout config mets code_base_dir given c db = (r, c', db')"
    and "\<forall>ms. mets = Some ms \<longrightarrow> (\<forall>(k, b) \<in> set ms. batch_aligned b)"
  shows "((\<forall>m \<in> set (metrics db). aligned m) \<longrightarrow> (\<forall>m \<in> set (metrics db'). aligned m))
       \<and> (\<forall>rid ms key b.
            r = Inr rid \<and> mets = Some ms \<and> distinct (map fst ms) \<and> (key, b) \<in> set ms \<longrightarrow>
            (\<exists>m'. find (metric_match rid key) (metrics db') = Some m'
               \<and> series m' =
                   (case find (metric_match rid key) (metrics db) of
                      None \<Rightarrow> (b_steps b, b_values b, b_timestamps b)
                    | Some m \<Rightarrow> (m_steps m @ b_steps b, m_values m @ b_values b,
                                 m_timestamps m @ b_timestamps b))))"
proof (intro conjI impI allI)
  assume inv: "\<forall>m \<in> set (metrics db). aligned m"
  from finished_event_metrics[OF assms(1)]
  show "\<forall>m \<in> set (metrics db'). aligned m"
  proof
    assume "metrics db' = metrics db"
    then show ?thesis using inv by simp
  next
    assume "\<exists>rid c2 db3 r'. metrics db3 = metrics db \<and> store_metrics mets rid c2 db3 = (r', db')"
    then obtain rid c2 db3 r' where m: "metrics db3 = metrics db"
      and s: "store_metrics mets rid c2 db3 = (r', db')" by blast
    show ?thesis
      using store_metrics_aligned[OF s assms(2)] inv m by simp
  qed
next
  fix rid ms key b
  assume h: "r = Inr rid \<and> mets = Some ms \<and> distinct (map fst ms) \<and> (key, b) \<in> set ms"
  then have ne: "ms \<noteq> []" by auto
  from finished_event_InrD[OF assms(1)[unfolded conjunct1[OF h]]]
  obtain c0 c1 db1 db2 db3 where
    a: "assemble L run config code_base_dir c0 db = (Inr (), c1, db1)"
    and i: "insert c1 db1 = (Inr (), c', db2)"
    and o: "store_output L cout c' db2 = (Inr rid, db3)"
    and s: "store_metrics mets rid c' db3 = (Inr (), db')" by blast
  have m3: "metrics db3 = metrics db"
    using assemble_frame[OF a] insert_frame[OF i] store_output_frame[OF o] by simp
  from store_metrics_InrD[OF s[unfolded conjunct1[OF conjunct2[OF h]]] ne]
  obtain reg db4 where mm: "merge_metrics rid ms [] db3 = (Inr reg, db4)"
    and sv: "save [(''info'', VDict (info_doc reg))] c' db4 = (Inr (), db')" by blast
  have m4: "metrics db' = metrics db4" using save_frame[OF sv] by simp
  show "\<exists>m'. find (metric_match rid key) (metrics db') = Some m'
               \<and> series m' =
                   (case find (metric_match rid key) (metrics db) of
                      None \<Rightarrow> (b_steps b, b_values b, b_timestamps b)
                    | Some m \<Rightarrow> (m_steps m @ b_steps b, m_values m @ b_values b,
                                 m_timestamps m @ b_timestamps b))"
    using merge_metrics_series[OF mm, of key b] h unfolding m4 m3 by simp
qed

text \<open>
  On a database that already holds steps 0 and 1 of \<open>loss\<close> for run 4, merging step 2 gives
  steps 0, 1, 2 with their values and timestamps.
\<close>

theorem merge_extends_series_witness:
  "fst (finished_event demo_lib demo_run plain_out (VDict []) (Some [(''loss'', later_batch)]) None None
          fresh_client metrics_db) = Inr (Some 4)
   \<and> batch_aligned later_batch \<and> list_all aligned (metrics metrics_db)
   \<and> list_all aligned (metrics (snd (snd (finished_event demo_lib demo_run plain_out (VDict [])
          (Some [(''loss'', later_batch)]) None None fresh_client metrics_db))))
   \<and> (\<exists>m'. find (metric_match (Some 4) ''loss'') (metrics (snd (snd (finished_event demo_lib demo_run plain_out (VDict []) (Some [(''loss'', later_batch)]) None None fresh_client metrics_db)))) = Some m'
        \<and> series m' = ([VInt 0, VInt 1, VInt 2], [VOther 10, VOther 20, VOther 30],
                        [VStr ''t0'', VStr ''t1'', VStr ''t2'']))"
proof -
  let ?call = "finished_event demo_lib demo_run plain_out (VDict []) (Some [(''loss'', later_batch)])
      None None fresh_client metrics_db"
  have e: "?call = (fst ?call, fst (snd ?call), snd (snd ?call))" by simp
  have r: "fst ?call = Inr (Some 4)" by code_simp
  have b: "batch_aligned later_batch" by (simp add: batch_aligned_def later_batch_def)
  have bs: "\<forall>ms. Some [(''loss'', later_batch)] = Some ms \<longrightarrow> (\<forall>(k, b) \<in> set ms. batch_aligned b)"
    using b by simp
  have a: "\<forall>m \<in> set (metrics metrics_db). aligned m"
    by (simp add: metrics_db_def loss_doc_def aligned_def)
  have f: "find (metric_match (Some 4) ''loss'') (metrics metrics_db) = Some loss_doc"
    by (simp add: metrics_db_def loss_doc_def metric_match_def)
  note t = merge_extends_series[OF e bs]
  have inv: "\<forall>m \<in> set (metrics (snd (snd ?call))). aligned m"
    using t a by blast
  have "\<exists>m'. find (metric_match (Some 4) ''loss'') (metrics (snd (snd ?call))) = Some m'
        \<and> series m' = (case find (metric_match (Some 4) ''loss'') (metrics metrics_db) of
                      None \<Rightarrow> (b_steps later_batch, b_values later_batch, b_timestamps later_batch)
                    | Some m \<Rightarrow> (m_steps m @ b_steps later_batch, m_values m @ b_values later_batch,
                                 m_timestamps m @ b_timestamps later_batch))"
    using t r by simp
  then have s: "\<exists>m'. find (metric_match (Some 4) ''loss'') (metrics (snd (snd ?call))) = Some m'
        \<and> series m' = ([VInt 0, VInt 1, VInt 2], [VOther 10, VOther 20, VOther 30],
                        [VStr ''t0'', VStr ''t1'', VStr ''t2''])"
    unfolding f by (simp add: loss_doc_def later_batch_def)
  show ?thesis
    using r b a inv s by (simp add: list_all_iff)
qed


section \<open>The metrics registry\<close>





section \<open>The marker in the captured output\<close>



end
